theory Spec2Isabelle
  imports Complex_Main "HOL-Library.Word"
begin

section \<open>Sliding-window rate limiter (src/lib/ratelimit.ts)\<close>

text \<open>
  Times are the integer milliseconds that \<open>Date.now()\<close> returns; every function that
  reads the clock takes the reading as an argument. The module-level
  \<open>Map<string, Bucket>\<close> is a partial map that is passed in and returned.
\<close>

record bucket =
  timestamps :: "int list"
  limit :: int
  windowMs :: int

type_synonym buckets = "string \<rightharpoonup> bucket"

text \<open>
  \<open>getBucket\<close>: an existing bucket has its \<open>limit\<close> and \<open>windowMs\<close> overwritten in
  place, a missing one is created empty and stored.
\<close>

definition getBucket :: "buckets \<Rightarrow> string \<Rightarrow> int \<Rightarrow> int \<Rightarrow> bucket \<times> buckets" where
  "getBucket bs key lmt w =
     (case bs key of
        Some existing \<Rightarrow>
          (let b = existing\<lparr>limit := lmt, windowMs := w\<rparr> in (b, bs(key \<mapsto> b)))
      | None \<Rightarrow>
          (let b = \<lparr>timestamps = [], limit = lmt, windowMs = w\<rparr> in (b, bs(key \<mapsto> b))))"

text \<open>
  The result of \<open>rateLimit\<close>. \<open>resetMs\<close> is \<open>None\<close> where the source computes
  \<open>Math.max(0, windowMs - (now - undefined))\<close>, which is \<open>NaN\<close>: a denial on an empty
  list of timestamps.
\<close>

record rl_result =
  allowed :: bool
  remaining :: int
  resetMs :: "int option"

definition rateLimit :: "int \<Rightarrow> string \<Rightarrow> int \<Rightarrow> int \<Rightarrow> buckets \<Rightarrow> rl_result \<times> buckets" where
  "rateLimit now key lmt w bs =
     (let (b, bs1) = getBucket bs key lmt w;
          ts = filter (\<lambda>t. now - t < w) (timestamps b)
      in if lmt \<le> int (length ts)
         then (\<lparr>allowed = False, remaining = 0,
                 resetMs = (case ts of [] \<Rightarrow> None | t0 # _ \<Rightarrow> Some (max 0 (w - (now - t0))))\<rparr>,
               bs1(key \<mapsto> b\<lparr>timestamps := ts\<rparr>))
         else (\<lparr>allowed = True, remaining = max 0 (lmt - int (length (ts @ [now]))),
                 resetMs = Some w\<rparr>,
               bs1(key \<mapsto> b\<lparr>timestamps := ts @ [now]\<rparr>)))"

text \<open>
  A calling pattern: the calls in the order they are made, each with the clock reading it
  sees. \<open>run_calls\<close> starts from the empty bucket map of a fresh process and keeps the
  log of calls with their results.
\<close>

record rl_call =
  c_now :: int
  c_key :: string
  c_limit :: int
  c_windowMs :: int

definition rl_step :: "(rl_call \<times> rl_result) list \<times> buckets \<Rightarrow> rl_call \<Rightarrow>
    (rl_call \<times> rl_result) list \<times> buckets" where
  "rl_step st c =
     (let (r, bs') = rateLimit (c_now c) (c_key c) (c_limit c) (c_windowMs c) (snd st)
      in (fst st @ [(c, r)], bs'))"

definition run_calls :: "rl_call list \<Rightarrow> (rl_call \<times> rl_result) list \<times> buckets" where
  "run_calls cs = foldl rl_step ([], Map.empty) cs"

definition admitted :: "string \<Rightarrow> (rl_call \<times> rl_result) list \<Rightarrow> int list" where
  "admitted k lg = map (\<lambda>p. c_now (fst p)) (filter (\<lambda>p. c_key (fst p) = k \<and> allowed (snd p)) lg)"

definition bucket_ts :: "buckets \<Rightarrow> string \<Rightarrow> int list" where
  "bucket_ts bs k = (case bs k of None \<Rightarrow> [] | Some b \<Rightarrow> timestamps b)"

definition call_at :: "string \<Rightarrow> int \<Rightarrow> int \<Rightarrow> int \<Rightarrow> rl_call" where
  "call_at k lmt w t = \<lparr>c_now = t, c_key = k, c_limit = lmt, c_windowMs = w\<rparr>"

subsection \<open>\<open>ipFromHeaders\<close>\<close>

text \<open>
  \<open>Headers.get\<close> returns \<open>null\<close> for a missing header and the value otherwise; header
  values are byte strings. \<open>if (xff)\<close> is JavaScript truthiness: the value is neither
  \<open>null\<close> nor the empty string, which is the pattern \<open>Some (c # cs)\<close>.
  \<open>String.prototype.trim\<close> strips white space and line terminators, which among the
  byte values are TAB, LF, VT, FF, CR, SP and NBSP. \<open>split(',')[0]\<close> is the text before
  the first comma.
\<close>

type_synonym headers = "string \<rightharpoonup> string"

definition js_space :: "char \<Rightarrow> bool" where
  "js_space c = (of_char c \<in> {9, 10, 11, 12, 13, 32, 160 :: nat})"

definition trim :: "string \<Rightarrow> string" where
  "trim s = rev (dropWhile js_space (rev (dropWhile js_space s)))"

definition split_first :: "char \<Rightarrow> string \<Rightarrow> string" where
  "split_first sep s = takeWhile (\<lambda>c. c \<noteq> sep) s"

definition ipFromHeaders :: "headers \<Rightarrow> string" where
  "ipFromHeaders h =
     (case h ''x-forwarded-for'' of
        Some (c # cs) \<Rightarrow> trim (split_first CHR '','' (c # cs))
      | _ \<Rightarrow>
        (case h ''x-real-ip'' of
           Some (c # cs) \<Rightarrow> c # cs
         | _ \<Rightarrow> ''unknown''))"

text \<open>The bucket keys of the handlers: the template strings \<open>`chat:${ip}`\<close>,
  \<open>`upload:${ip}`\<close> and \<open>`chat_stream:${ip}`\<close>.\<close>

definition bucket_key :: "string \<Rightarrow> string \<Rightarrow> string" where
  "bucket_key endpoint ip = endpoint @ '':'' @ ip"


section \<open>TTL memory cache (\<open>MemoryCache\<close>)\<close>

text \<open>
  The JavaScript \<open>Map\<close> behind the cache iterates in insertion order, and the order decides
  which of several equally old entries \<open>evictOldest\<close> meets first, so the map is an
  association list in insertion order: \<open>Map.set\<close> on a stored key replaces the value in
  place, on a new key appends; \<open>Map.delete\<close> removes the key.
\<close>

record 'v CacheEntry =
  data :: 'v
  timestamp :: int
  ttl :: int
  hits :: nat

type_synonym 'v entries = "(string \<times> 'v CacheEntry) list"

fun map_set :: "(string \<times> 'a) list \<Rightarrow> string \<Rightarrow> 'a \<Rightarrow> (string \<times> 'a) list" where
  "map_set [] k v = [(k, v)]"
| "map_set ((k', v') # xs) k v = (if k' = k then (k, v) # xs else (k', v') # map_set xs k v)"

definition map_has :: "(string \<times> 'a) list \<Rightarrow> string \<Rightarrow> bool" where
  "map_has xs k = (map_of xs k \<noteq> None)"

definition map_delete :: "(string \<times> 'a) list \<Rightarrow> string \<Rightarrow> (string \<times> 'a) list" where
  "map_delete xs k = filter (\<lambda>p. fst p \<noteq> k) xs"

text \<open>
  The cache object: the entry map, the two constructor arguments and the \<open>stats\<close> counters.
  The interval timer started by the constructor is not part of the state: \<open>cleanup\<close> is an
  operation that may run between any two others.
\<close>

record 'v MemoryCache =
  cache :: "'v entries"
  maxSize :: int
  defaultTtl :: int
  stats_hits :: nat
  stats_misses :: nat

definition new_MemoryCache :: "int \<Rightarrow> int \<Rightarrow> 'v MemoryCache" where
  "new_MemoryCache m d =
     \<lparr>cache = [], maxSize = m, defaultTtl = d, stats_hits = 0, stats_misses = 0\<rparr>"

text \<open>
  \<open>evictOldest\<close>: the loop keeps \<open>(oldestKey, oldestTimestamp)\<close>, starting from
  \<open>(null, Date.now())\<close>, and moves to an entry only when its timestamp is strictly smaller.
  \<open>if (oldestKey)\<close> is truthiness: the key found is neither \<open>null\<close> nor the empty string.
\<close>

fun evict_scan :: "string option \<times> int \<Rightarrow> 'v entries \<Rightarrow> string option \<times> int" where
  "evict_scan acc [] = acc"
| "evict_scan acc ((k, e) # xs) =
     (if timestamp e < snd acc then evict_scan (Some k, timestamp e) xs else evict_scan acc xs)"

definition evictOldest :: "int \<Rightarrow> 'v MemoryCache \<Rightarrow> 'v MemoryCache" where
  "evictOldest now c =
     (case fst (evict_scan (None, now) (cache c)) of
        Some (x # xs) \<Rightarrow> c\<lparr>cache := map_delete (cache c) (x # xs)\<rparr>
      | _ \<Rightarrow> c)"

text \<open>
  \<open>set\<close> reads the clock (\<open>now\<close>), and \<open>evictOldest\<close> reads it again (\<open>enow\<close>) when it
  is called.
\<close>

definition MemoryCache_set ::
  "int \<Rightarrow> int \<Rightarrow> string \<Rightarrow> 'v \<Rightarrow> int option \<Rightarrow> 'v MemoryCache \<Rightarrow> 'v MemoryCache" where
  "MemoryCache_set now enow key val ttl_arg c =
     (let entryTtl = (case ttl_arg of Some t \<Rightarrow> t | None \<Rightarrow> defaultTtl c);
          c1 = (if maxSize c \<le> int (length (cache c)) \<and> \<not> map_has (cache c) key
                then evictOldest enow c else c)
      in c1\<lparr>cache := map_set (cache c1) key
                 \<lparr>data = val, timestamp = now, ttl = entryTtl, hits = 0\<rparr>\<rparr>)"

definition MemoryCache_get :: "int \<Rightarrow> string \<Rightarrow> 'v MemoryCache \<Rightarrow> 'v option \<times> 'v MemoryCache" where
  "MemoryCache_get now key c =
     (case map_of (cache c) key of
        None \<Rightarrow> (None, c\<lparr>stats_misses := stats_misses c + 1\<rparr>)
      | Some entry \<Rightarrow>
          if ttl entry < now - timestamp entry
          then (None, c\<lparr>cache := map_delete (cache c) key, stats_misses := stats_misses c + 1\<rparr>)
          else (Some (data entry),
                c\<lparr>cache := map_set (cache c) key (entry\<lparr>hits := hits entry + 1\<rparr>),
                  stats_hits := stats_hits c + 1\<rparr>))"

definition MemoryCache_has :: "int \<Rightarrow> string \<Rightarrow> 'v MemoryCache \<Rightarrow> bool \<times> 'v MemoryCache" where
  "MemoryCache_has now key c =
     (case map_of (cache c) key of
        None \<Rightarrow> (False, c)
      | Some entry \<Rightarrow>
          if ttl entry < now - timestamp entry
          then (False, c\<lparr>cache := map_delete (cache c) key\<rparr>)
          else (True, c))"

definition MemoryCache_delete :: "string \<Rightarrow> 'v MemoryCache \<Rightarrow> bool \<times> 'v MemoryCache" where
  "MemoryCache_delete key c = (map_has (cache c) key, c\<lparr>cache := map_delete (cache c) key\<rparr>)"

definition MemoryCache_clear :: "'v MemoryCache \<Rightarrow> 'v MemoryCache" where
  "MemoryCache_clear c = c\<lparr>cache := [], stats_hits := 0, stats_misses := 0\<rparr>"

definition cleanup :: "int \<Rightarrow> 'v MemoryCache \<Rightarrow> 'v MemoryCache" where
  "cleanup now c = c\<lparr>cache := filter (\<lambda>p. \<not> ttl (snd p) < now - timestamp (snd p)) (cache c)\<rparr>"

text \<open>
  \<open>getStats\<close>. The quotient \<open>hits / totalRequests\<close> is the exact one here; the source
  computes it in double precision.
\<close>

record CacheStats =
  totalEntries :: nat
  totalHits :: nat
  totalMisses :: nat
  hitRate :: real
  memoryUsage :: nat

definition getStats :: "'v MemoryCache \<Rightarrow> CacheStats" where
  "getStats c =
     (let totalRequests = stats_hits c + stats_misses c;
          rate = (if 0 < totalRequests then real (stats_hits c) / real totalRequests else 0)
      in \<lparr>totalEntries = length (cache c), totalHits = stats_hits c,
          totalMisses = stats_misses c, hitRate = rate,
          memoryUsage = length (cache c) * 1024\<rparr>)"

text \<open>A sequence of operations on one cache, applied from left to right.\<close>

datatype 'v cache_op =
    OpSet int int string 'v "int option"
  | OpGet int string
  | OpHas int string
  | OpDelete string
  | OpClear
  | OpCleanup int

fun apply_op :: "'v MemoryCache \<Rightarrow> 'v cache_op \<Rightarrow> 'v MemoryCache" where
  "apply_op c (OpSet now enow k v t) = MemoryCache_set now enow k v t c"
| "apply_op c (OpGet now k) = snd (MemoryCache_get now k c)"
| "apply_op c (OpHas now k) = snd (MemoryCache_has now k c)"
| "apply_op c (OpDelete k) = snd (MemoryCache_delete k c)"
| "apply_op c OpClear = MemoryCache_clear c"
| "apply_op c (OpCleanup now) = cleanup now c"

definition run_ops :: "'v MemoryCache \<Rightarrow> 'v cache_op list \<Rightarrow> 'v MemoryCache" where
  "run_ops c ops = foldl apply_op c ops"

text \<open>The number of \<open>get\<close> calls after the last \<open>clear\<close> of a sequence.\<close>

fun count_get :: "nat \<Rightarrow> 'v cache_op \<Rightarrow> nat" where
  "count_get n (OpGet now k) = Suc n"
| "count_get n OpClear = 0"
| "count_get n _ = n"

definition gets_since_clear :: "'v cache_op list \<Rightarrow> nat" where
  "gets_since_clear ops = foldl count_get 0 ops"


section \<open>Cache key generator\<close>

text \<open>
  A JavaScript string is a sequence of UTF-16 code units, which is what \<open>charCodeAt\<close>
  reads. The keys that are built consist of ASCII characters and are of type \<open>string\<close>.
\<close>

type_synonym jsstring = "16 word list"

text \<open>
  \<open>Number.prototype.toString(radix)\<close> on a non-negative integer, with the digits
  \<open>0\<close>..\<open>9\<close>, \<open>a\<close>..\<open>z\<close>. The source uses the radixes 10 and 36; a radix below 2
  (a \<open>RangeError\<close> in the source) gives the empty string here.
\<close>

definition digit_chars :: string where
  "digit_chars = ''0123456789abcdefghijklmnopqrstuvwxyz''"

definition digit_char :: "nat \<Rightarrow> char" where
  "digit_char d = digit_chars ! d"

function toString_radix :: "nat \<Rightarrow> nat \<Rightarrow> string" where
  "toString_radix b n =
     (if b < 2 \<or> 36 < b then []
      else if n < b then [digit_char n]
      else toString_radix b (n div b) @ [digit_char (n mod b)])"
  by pat_completeness auto
termination
  by (relation "measure snd") auto

declare toString_radix.simps [simp del]

text \<open>
  \<open>simpleHash\<close>: \<open>hash << 5\<close> and \<open>hash & hash\<close> are 32-bit operations, and the
  subtraction and addition between them are exact, so each round is
  \<open>31 * hash + char\<close> in 32-bit two's complement. The result is the base-36 text of the
  absolute value of the signed reading.
\<close>

definition hash_step :: "32 word \<Rightarrow> 16 word \<Rightarrow> 32 word" where
  "hash_step h c = push_bit 5 h - h + ucast c"

definition hash32 :: "jsstring \<Rightarrow> 32 word" where
  "hash32 str = foldl hash_step 0 str"

definition simpleHash :: "jsstring \<Rightarrow> string" where
  "simpleHash str = toString_radix 36 (nat \<bar>sint (hash32 str)\<bar>)"

text \<open>
  The parts of a key are strings or numbers; \<open>Array.prototype.join\<close> turns a number into
  its decimal text. The numbers that occur are integers.
\<close>

datatype part = Str string | Num int

fun part_text :: "part \<Rightarrow> string" where
  "part_text (Str s) = s"
| "part_text (Num n) =
     (if n < 0 then ''-'' @ toString_radix 10 (nat (- n)) else toString_radix 10 (nat n))"

fun join :: "string \<Rightarrow> string list \<Rightarrow> string" where
  "join sep [] = []"
| "join sep [x] = x"
| "join sep (x # y # ys) = x @ sep @ join sep (y # ys)"

definition generateCacheKey :: "string \<Rightarrow> part list \<Rightarrow> string" where
  "generateCacheKey prefix parts = prefix @ '':'' @ join '':'' (map part_text parts)"

text \<open>
  The optional arguments are \<open>None\<close> when omitted. \<open>enableRerank ? '1' : '0'\<close> tests
  truthiness, which for \<open>boolean | undefined\<close> holds of \<open>true\<close> only;
  \<open>sentenceWindowSize || 3\<close> replaces \<open>undefined\<close> and \<open>0\<close> by 3.
\<close>

definition flag_text :: "bool option \<Rightarrow> string" where
  "flag_text f = (if f = Some True then ''1'' else ''0'')"

definition num_or :: "int option \<Rightarrow> int \<Rightarrow> int" where
  "num_or v d = (case v of None \<Rightarrow> d | Some n \<Rightarrow> if n = 0 then d else n)"

definition generateQueryCacheKey ::
  "jsstring \<Rightarrow> int \<Rightarrow> bool option \<Rightarrow> bool option \<Rightarrow> int option \<Rightarrow> string" where
  "generateQueryCacheKey q k rerank llmRerank windowSize =
     generateCacheKey ''query''
       [Str (simpleHash q), Num k, Str (flag_text rerank), Str (flag_text llmRerank),
        Num (num_or windowSize 3)]"

section \<open>The chat handler and \<open>withResponseCache\<close>\<close>

text \<open>
  \<open>responseCache\<close> is a \<open>MemoryCache<any>\<close>: the chat handler stores
  \<open>{answer, sources}\<close> objects in it and \<open>withResponseCache\<close> stores
  \<open>{body, status, statusText, headers}\<close> objects. Both are objects, hence truthy, so
  \<open>if (cachedResponse)\<close> and \<open>if (cached)\<close> test for a value other than \<open>null\<close>.
\<close>

datatype cache_value =
    QueryResult string "string list"
  | StoredResponse string int string "(string \<times> string) list"

text \<open>The request body as \<open>bodySchema\<close> sees it, and the schema's checks.\<close>

record chat_body =
  question :: jsstring
  topK :: "int option"
  enableLLMRerank :: "bool option"
  enableRerank :: "bool option"
  sentenceWindowSize :: "int option"

text \<open>
  What the handler throws: \<open>RateLimitError\<close>, the \<open>ZodError\<close> of
  \<open>bodySchema.parse\<close>, \<open>ExternalServiceError\<close> with the status of the backend, and
  whatever a failing \<open>fetch\<close> or \<open>resp.json()\<close> throws.
\<close>

datatype api_error =
    RateLimitError
  | ZodError
  | ExternalServiceError int
  | FetchError

definition in_range_opt :: "int \<Rightarrow> int \<Rightarrow> int option \<Rightarrow> bool" where
  "in_range_opt lo hi v = (case v of None \<Rightarrow> True | Some n \<Rightarrow> lo \<le> n \<and> n \<le> hi)"

definition bodySchema_parse :: "chat_body \<Rightarrow> api_error + chat_body" where
  "bodySchema_parse b =
     (if 3 \<le> length (question b) \<and> length (question b) \<le> 2000
         \<and> in_range_opt 1 50 (topK b) \<and> in_range_opt 1 10 (sentenceWindowSize b)
      then Inr b else Inl ZodError)"

text \<open>
  What \<open>fetch\<close> of the backend resolves to, with the parsed JSON body: \<open>ok\<close> is the
  \<open>Response.ok\<close> of the fetch API, a status from 200 to 299. A \<open>fetch\<close> or
  \<open>resp.json()\<close> that throws is \<open>None\<close> where the handler takes the response.
\<close>

record backend_response =
  status :: int
  answer :: string
  sources :: "string list option"

definition ok :: "int \<Rightarrow> bool" where
  "ok st = (200 \<le> st \<and> st \<le> 299)"

text \<open>The cache key that the chat handler derives from a parsed body (\<open>topK || 5\<close>).\<close>

definition cacheKey_of :: "chat_body \<Rightarrow> string" where
  "cacheKey_of b =
     generateQueryCacheKey (question b) (num_or (topK b) 5) (enableRerank b) (enableLLMRerank b)
       (sentenceWindowSize b)"

text \<open>
  The chat handler \<open>POST\<close>. The clock readings are those of \<open>rateLimit\<close> (\<open>t_rl\<close>),
  \<open>responseCache.get\<close> (\<open>t_get\<close>) and \<open>responseCache.set\<close> with its eviction
  (\<open>t_set\<close>, \<open>t_ev\<close>). Every \<open>throw\<close> ends in \<open>handleApiError\<close>, which builds the
  error response and touches no state: the result is \<open>Inl\<close> of the error, or \<open>Inr\<close> of the
  object that is sent as JSON with status 200.
\<close>

definition chat_POST ::
  "int \<Rightarrow> int \<Rightarrow> int \<Rightarrow> int \<Rightarrow> headers \<Rightarrow> chat_body \<Rightarrow> backend_response option \<Rightarrow>
   buckets \<times> cache_value MemoryCache \<Rightarrow>
   (api_error + cache_value) \<times> buckets \<times> cache_value MemoryCache" where
  "chat_POST t_rl t_get t_set t_ev hdrs json backend st =
     (let ip = ipFromHeaders hdrs;
          (rl, bs1) = rateLimit t_rl (bucket_key ''chat'' ip) 60 60000 (fst st)
      in if \<not> allowed rl then (Inl RateLimitError, bs1, snd st)
         else case bodySchema_parse json of
           Inl e \<Rightarrow> (Inl e, bs1, snd st)
         | Inr b \<Rightarrow>
             (let cacheKey = cacheKey_of b;
                  (cachedResponse, c1) = MemoryCache_get t_get cacheKey (snd st)
              in case cachedResponse of
                   Some v \<Rightarrow> (Inr v, bs1, c1)
                 | None \<Rightarrow>
                     (case backend of
                        None \<Rightarrow> (Inl FetchError, bs1, c1)
                      | Some resp \<Rightarrow>
                          if \<not> ok (status resp)
                          then (Inl (ExternalServiceError (status resp)), bs1, c1)
                          else (let responseData =
                                      QueryResult (answer resp)
                                        (case sources resp of None \<Rightarrow> [] | Some xs \<Rightarrow> xs)
                                in (Inr responseData, bs1,
                                    MemoryCache_set t_set t_ev cacheKey responseData
                                      (Some 300000) c1)))))"

text \<open>
  \<open>withResponseCache(keyGenerator, ttl)(handler)\<close>: \<open>key\<close> is what the key generator
  returns for the request and \<open>response\<close> is what the wrapped handler returns when it is
  called. On a hit the source replays the stored object with
  \<open>new Response(cached.body, cached)\<close>; \<open>response_of\<close> gives the stored fields only,
  not the headers that the platform adds nor its \<open>TypeError\<close> for a body with a null-body
  status. The cache after the call does not depend on the replayed response.
\<close>

record http_response =
  r_status :: int
  r_statusText :: string
  r_headers :: "(string \<times> string) list"
  r_body :: string

fun response_of :: "cache_value \<Rightarrow> http_response" where
  "response_of (StoredResponse b st txt hs) =
     \<lparr>r_status = st, r_statusText = txt, r_headers = hs, r_body = b\<rparr>"
| "response_of (QueryResult a ss) =
     \<lparr>r_status = 200, r_statusText = [], r_headers = [], r_body = []\<rparr>"

definition withResponseCache ::
  "int \<Rightarrow> int \<Rightarrow> int \<Rightarrow> string \<Rightarrow> int option \<Rightarrow> http_response \<Rightarrow>
   cache_value MemoryCache \<Rightarrow> http_response \<times> cache_value MemoryCache" where
  "withResponseCache t_get t_set t_ev key ttl_arg response c =
     (let (cached, c1) = MemoryCache_get t_get key c
      in case cached of
           Some v \<Rightarrow> (response_of v, c1)
         | None \<Rightarrow>
             if ok (r_status response)
             then (response,
                   MemoryCache_set t_set t_ev key
                     (StoredResponse (r_body response) (r_status response)
                        (r_statusText response) (r_headers response))
                     ttl_arg c1)
             else (response, c1))"


section \<open>Properties of the rate limiter\<close>

lemma rateLimit_other: "k' \<noteq> k \<Longrightarrow> snd (rateLimit now k' n w bs) k = bs k"
  by (simp add: rateLimit_def getBucket_def Let_def split: option.splits)

lemma rateLimit_same_ts:
  "bucket_ts (snd (rateLimit now k n w bs)) k =
     (if n \<le> int (length (filter (\<lambda>t. now - t < w) (bucket_ts bs k)))
      then filter (\<lambda>t. now - t < w) (bucket_ts bs k)
      else filter (\<lambda>t. now - t < w) (bucket_ts bs k) @ [now])"
  by (simp add: rateLimit_def getBucket_def Let_def bucket_ts_def split: option.splits)

lemma rateLimit_allowed:
  "allowed (fst (rateLimit now k n w bs)) =
     (\<not> n \<le> int (length (filter (\<lambda>t. now - t < w) (bucket_ts bs k))))"
  by (simp add: rateLimit_def getBucket_def Let_def bucket_ts_def split: option.splits)

lemma run_calls_Nil: "run_calls [] = ([], Map.empty)"
  by (simp add: run_calls_def)

lemma run_calls_snoc: "run_calls (cs @ [c]) = rl_step (run_calls cs) c"
  by (simp add: run_calls_def)

lemma rl_step_log:
  "fst (rl_step st c) =
     fst st @ [(c, fst (rateLimit (c_now c) (c_key c) (c_limit c) (c_windowMs c) (snd st)))]"
  by (simp add: rl_step_def split_def Let_def)

lemma rl_step_state:
  "snd (rl_step st c) = snd (rateLimit (c_now c) (c_key c) (c_limit c) (c_windowMs c) (snd st))"
  by (simp add: rl_step_def split_def Let_def)

lemma bucket_ts_other:
  "k' \<noteq> k \<Longrightarrow> bucket_ts (snd (rateLimit now k' n w bs)) k = bucket_ts bs k"
  by (simp add: bucket_ts_def rateLimit_other)

lemma admitted_snoc:
  "admitted k (lg @ [(c, r)]) =
     (if c_key c = k \<and> allowed r then admitted k lg @ [c_now c] else admitted k lg)"
  by (simp add: admitted_def)

lemma filter_window_mono:
  fixes m now w :: int
  assumes "now \<le> m"
  shows "filter (\<lambda>t. now - t < w \<and> m - t < w) xs = filter (\<lambda>t. m - t < w) xs"
proof -
  have "\<And>t. (now - t < w \<and> m - t < w) = (m - t < w)" using assms by auto
  then show ?thesis by simp
qed

lemma bucket_is_window:
  assumes "\<forall>c\<in>set cs. c_key c = k \<longrightarrow> c_limit c = N \<and> c_windowMs c = W"
    and "sorted (map c_now cs)"
    and "\<forall>c\<in>set cs. c_now c \<le> m"
  shows "filter (\<lambda>t. m - t < W) (bucket_ts (snd (run_calls cs)) k) =
         filter (\<lambda>t. m - t < W) (admitted k (fst (run_calls cs)))"
  using assms
proof (induction cs arbitrary: m rule: rev_induct)
  case Nil
  show ?case by (simp add: run_calls_Nil bucket_ts_def admitted_def)
next
  case (snoc c cs)
  let ?st = "run_calls cs"
  have fixed: "\<forall>c\<in>set cs. c_key c = k \<longrightarrow> c_limit c = N \<and> c_windowMs c = W"
    using snoc.prems(1) by simp
  have srt: "sorted (map c_now cs)" and le_now: "\<forall>d\<in>set cs. c_now d \<le> c_now c"
    using snoc.prems(2) by (auto simp: sorted_append)
  have now_m: "c_now c \<le> m" and le_m: "\<forall>d\<in>set cs. c_now d \<le> m"
    using snoc.prems(3) by auto
  note ih_m = snoc.IH [OF fixed srt le_m]
  note ih_now = snoc.IH [OF fixed srt le_now]
  show ?case
  proof (cases "c_key c = k")
    case False
    then show ?thesis
      using ih_m by (simp add: run_calls_snoc rl_step_log rl_step_state bucket_ts_other admitted_snoc)
  next
    case True
    then have par: "c_limit c = N" "c_windowMs c = W" using snoc.prems(1) by auto
    show ?thesis
      using ih_m ih_now now_m
      by (simp add: run_calls_snoc rl_step_log rl_step_state admitted_snoc True par
            rateLimit_same_ts rateLimit_allowed filter_window_mono)
  qed
qed


lemma bucket_length_le:
  assumes "\<forall>c\<in>set cs. c_key c = k \<longrightarrow> c_limit c = N \<and> c_windowMs c = W"
    and "0 \<le> N"
  shows "int (length (bucket_ts (snd (run_calls cs)) k)) \<le> N"
  using assms
proof (induction cs rule: rev_induct)
  case Nil
  then show ?case by (simp add: run_calls_Nil bucket_ts_def)
next
  case (snoc c cs)
  then have ih: "int (length (bucket_ts (snd (run_calls cs)) k)) \<le> N" by simp
  have "length (filter (\<lambda>t. c_now c - t < W) (bucket_ts (snd (run_calls cs)) k))
               \<le> length (bucket_ts (snd (run_calls cs)) k)"
    by (rule length_filter_le)
  with ih have flt: "int (length (filter (\<lambda>t. c_now c - t < W) (bucket_ts (snd (run_calls cs)) k))) \<le> N"
    by linarith
  show ?case
  proof (cases "c_key c = k")
    case False
    then show ?thesis using ih by (simp add: run_calls_snoc rl_step_state bucket_ts_other)
  next
    case True
    then have par: "c_limit c = N" "c_windowMs c = W" using snoc.prems(1) by auto
    show ?thesis using flt
      by (auto simp add: run_calls_snoc rl_step_state True par rateLimit_same_ts)
  qed
qed

lemma bucket_subset_calls:
  "set (bucket_ts (snd (run_calls cs)) k) \<subseteq> c_now ` set cs"
proof (induction cs rule: rev_induct)
  case Nil
  then show ?case by (simp add: run_calls_Nil bucket_ts_def)
next
  case (snoc c cs)
  show ?case
  proof (cases "c_key c = k")
    case False
    then show ?thesis using snoc.IH
      by (auto simp: run_calls_snoc rl_step_state bucket_ts_other)
  next
    case True
    then show ?thesis using snoc.IH
      by (auto simp: run_calls_snoc rl_step_state rateLimit_same_ts)
  qed
qed

lemma bucket_within_window:
  assumes "c_key c = k" and "0 < c_windowMs c" and "sorted (map c_now (cs @ [c]))"
    and "t \<in> set (bucket_ts (snd (run_calls (cs @ [c]))) k)"
  shows "c_now c - t < c_windowMs c \<and> t \<le> c_now c"
proof -
  have sub: "set (bucket_ts (snd (run_calls (cs @ [c]))) k) \<subseteq> c_now ` set (cs @ [c])"
    by (rule bucket_subset_calls)
  have "\<forall>d\<in>set (cs @ [c]). c_now d \<le> c_now c"
    using assms(3) by (auto simp: sorted_append)
  with sub assms(4) have le: "t \<le> c_now c" by blast
  have "c_now c - t < c_windowMs c"
    using assms(1,2,4)
    by (auto simp: run_calls_snoc rl_step_state rateLimit_same_ts split: if_splits)
  with le show ?thesis by simp
qed

lemma window_count:
  assumes "\<forall>c\<in>set cs. c_key c = k \<longrightarrow> c_limit c = N \<and> c_windowMs c = W"
    and "sorted (map c_now cs)" and "0 \<le> N"
  shows "int (length (filter (\<lambda>t. a \<le> t \<and> t < a + W) (admitted k (fst (run_calls cs))))) \<le> N"
  using assms
proof (induction cs rule: rev_induct)
  case Nil
  then show ?case by (simp add: run_calls_Nil admitted_def)
next
  case (snoc c cs)
  let ?A = "admitted k (fst (run_calls cs))"
  let ?B = "bucket_ts (snd (run_calls cs)) k"
  have fixed: "\<forall>c\<in>set cs. c_key c = k \<longrightarrow> c_limit c = N \<and> c_windowMs c = W"
    using snoc.prems(1) by simp
  have srt: "sorted (map c_now cs)" and le_now: "\<forall>d\<in>set cs. c_now d \<le> c_now c"
    using snoc.prems(2) by (auto simp: sorted_append)
  have ih: "int (length (filter (\<lambda>t. a \<le> t \<and> t < a + W) ?A)) \<le> N"
    using snoc.IH [OF fixed srt snoc.prems(3)] .
  show ?case
  proof (cases "c_key c = k \<and> allowed (fst (rateLimit (c_now c) (c_key c) (c_limit c) (c_windowMs c) (snd (run_calls cs))))")
    case False
    then show ?thesis using ih
      by (auto simp add: run_calls_snoc rl_step_log admitted_snoc)
  next
    case True
    then have key: "c_key c = k" and par: "c_limit c = N" "c_windowMs c = W"
      using snoc.prems(1) by auto
    from True have room: "int (length (filter (\<lambda>t. c_now c - t < W) ?B)) < N"
      by (simp add: rateLimit_allowed key par)
    have win: "filter (\<lambda>t. c_now c - t < W) ?B = filter (\<lambda>t. c_now c - t < W) ?A"
      by (rule bucket_is_window [OF fixed srt le_now])
    have adm: "admitted k (fst (run_calls (cs @ [c]))) = ?A @ [c_now c]"
      using True by (auto simp add: run_calls_snoc rl_step_log admitted_snoc)
    show ?thesis
    proof (cases "a \<le> c_now c \<and> c_now c < a + W")
      case False
      then show ?thesis using ih adm by auto
    next
      case inwin: True
      have "filter (\<lambda>t. a \<le> t \<and> t < a + W) ?A =
            filter (\<lambda>t. a \<le> t \<and> t < a + W) (filter (\<lambda>t. c_now c - t < W) ?A)"
      proof -
        have "\<And>t. (c_now c - t < W \<and> a \<le> t \<and> t < a + W) = (a \<le> t \<and> t < a + W)"
          using inwin by auto
        then show ?thesis by simp
      qed
      then have "length (filter (\<lambda>t. a \<le> t \<and> t < a + W) ?A)
                   \<le> length (filter (\<lambda>t. c_now c - t < W) ?A)"
        by (metis length_filter_le)
      with room win show ?thesis using adm inwin by simp
    qed
  qed
qed

text \<open>
  C3, as the code has it. A timestamp is pruned when \<open>now - t < windowMs\<close> fails, so
  one that is exactly \<open>windowMs\<close> old is already gone: the windows that the limiter
  bounds are the half-open ones. One key is always called with the same limit \<open>N\<close> and
  the same window \<open>W\<close>, in between any calls for other keys, and the clock readings of
  the calls do not decrease. Then every
  window \<open>[a, a + W)\<close> holds at most \<open>N\<close> admitted calls of the key, and after each
  decision the bucket holds at most \<open>N\<close> timestamps; after a decision for the key, each of
  them is less than \<open>W\<close> before the time of that call. A limit is a count and a window a
  positive duration: \<open>0 \<le> N\<close> and \<open>0 < W\<close>. The list \<open>cs\<close> is any calling pattern, so
  the statement holds after each of its calls.
\<close>

theorem rateLimit_sliding_window:
  assumes "\<forall>c\<in>set cs. c_key c = k \<longrightarrow> c_limit c = N \<and> c_windowMs c = W"
    and "sorted (map c_now cs)" and "0 \<le> N" and "0 < W"
  shows "int (length (filter (\<lambda>t. a \<le> t \<and> t < a + W) (admitted k (fst (run_calls cs))))) \<le> N
       \<and> int (length (bucket_ts (snd (run_calls cs)) k)) \<le> N
       \<and> (cs \<noteq> [] \<and> c_key (last cs) = k \<longrightarrow>
            (\<forall>t\<in>set (bucket_ts (snd (run_calls cs)) k).
               0 \<le> c_now (last cs) - t \<and> c_now (last cs) - t < W))"
proof (intro conjI impI ballI)
  show "int (length (filter (\<lambda>t. a \<le> t \<and> t < a + W) (admitted k (fst (run_calls cs))))) \<le> N"
    by (rule window_count [OF assms(1) assms(2) assms(3)])
  show "int (length (bucket_ts (snd (run_calls cs)) k)) \<le> N"
    by (rule bucket_length_le [OF assms(1) assms(3)])
next
  fix t
  assume ne: "cs \<noteq> [] \<and> c_key (last cs) = k"
    and t: "t \<in> set (bucket_ts (snd (run_calls cs)) k)"
  from ne obtain ds d where cs: "cs = ds @ [d]"
    by (metis append_butlast_last_id)
  with ne have key: "c_key d = k" by simp
  with assms(1) cs have w: "c_windowMs d = W" by simp
  have "c_now d - t < c_windowMs d \<and> t \<le> c_now d"
    using key assms(2,4) t w unfolding cs by (intro bucket_within_window) auto
  then show "0 \<le> c_now (last cs) - t" and "c_now (last cs) - t < W"
    using cs w by auto
qed

theorem rateLimit_sliding_window_witness:
  "sorted (map c_now (map (call_at ''ip'' 2 1000) [0, 400, 800, 1000, 1399, 1400]))
   \<and> admitted ''ip'' (fst (run_calls (map (call_at ''ip'' 2 1000) [0, 400, 800, 1000, 1399, 1400])))
       = [0, 400, 1000, 1400]
   \<and> int (length (filter (\<lambda>t. 400 \<le> t \<and> t < 400 + 1000)
        (admitted ''ip'' (fst (run_calls (map (call_at ''ip'' 2 1000) [0, 400, 800, 1000, 1399, 1400])))))) \<le> 2
   \<and> bucket_ts (snd (run_calls (map (call_at ''ip'' 2 1000) [0, 400, 800, 1000, 1399, 1400]))) ''ip''
       = [1000, 1400]"
  using rateLimit_sliding_window
    [of "map (call_at ''ip'' 2 1000) [0, 400, 800, 1000, 1399, 1400]" "''ip''" 2 1000 400]
  by (simp add: run_calls_def rl_step_def rateLimit_def getBucket_def call_at_def
        admitted_def bucket_ts_def Let_def split_def)

text \<open>
  C3 as stated bounds every interval of length \<open>windowMs\<close>, for every pattern of call
  times. With limit 1 and window 1000, the calls at 0 and 1000 are both admitted, and the
  interval from 0 to 1000, ends included, holds two admitted calls. And with limit 2 and
  window 1000, calls that read the clock as 0, 1, 1500 and 2 are all admitted: the reading
  1500 prunes 0 and 1, and the window \<open>[0, 1000)\<close> holds the three admitted calls 0, 1
  and 2.
\<close>

theorem rateLimit_interval_counterexample:
  "map (\<lambda>p. allowed (snd p)) (fst (run_calls (map (call_at ''ip'' 1 1000) [0, 1000])))
     = [True, True]
   \<and> length (filter (\<lambda>t. 0 \<le> t \<and> t \<le> 0 + 1000)
        (admitted ''ip'' (fst (run_calls (map (call_at ''ip'' 1 1000) [0, 1000]))))) = 2
   \<and> map (\<lambda>p. allowed (snd p)) (fst (run_calls (map (call_at ''ip'' 2 1000) [0, 1, 1500, 2])))
     = [True, True, True, True]
   \<and> length (filter (\<lambda>t. 0 \<le> t \<and> t < 0 + 1000)
        (admitted ''ip'' (fst (run_calls (map (call_at ''ip'' 2 1000) [0, 1, 1500, 2]))))) = 3"
  by (simp add: run_calls_def rl_step_def rateLimit_def getBucket_def call_at_def
        admitted_def Let_def split_def)

text \<open>
  C4. With limit 3 and window 1000 on one key, the calls at 0, 100, 200, 300 and 1001 are
  allowed, allowed, allowed, denied, allowed. The denied call records nothing: before the
  fifth call the bucket holds 0, 100, 200, and after it 100, 200, 1001.
\<close>

theorem rateLimit_window_example:
  "map (\<lambda>p. allowed (snd p)) (fst (run_calls (map (call_at k 3 1000) [0, 100, 200, 300, 1001])))
     = [True, True, True, False, True]
   \<and> bucket_ts (snd (run_calls (map (call_at k 3 1000) [0, 100, 200, 300]))) k = [0, 100, 200]
   \<and> bucket_ts (snd (run_calls (map (call_at k 3 1000) [0, 100, 200, 300, 1001]))) k
       = [100, 200, 1001]"
  by (simp add: run_calls_def rl_step_def rateLimit_def getBucket_def call_at_def
        bucket_ts_def Let_def split_def)


section \<open>Properties of the cache\<close>

subsection \<open>The entry map\<close>

lemma map_of_map_set: "map_of (map_set xs k v) k' = (if k' = k then Some v else map_of xs k')"
  by (induction xs) auto

lemma map_of_map_delete: "map_of (map_delete xs k) k' = (if k' = k then None else map_of xs k')"
  unfolding map_delete_def by (induction xs) auto

lemma keys_map_set: "k' \<in> fst ` set (map_set xs k v) \<longleftrightarrow> k' = k \<or> k' \<in> fst ` set xs"
proof -
  have "k' \<in> fst ` set (map_set xs k v) \<longleftrightarrow> map_of (map_set xs k v) k' \<noteq> None"
    by (simp add: map_of_eq_None_iff)
  also have "\<dots> \<longleftrightarrow> k' = k \<or> map_of xs k' \<noteq> None"
    by (simp add: map_of_map_set)
  also have "\<dots> \<longleftrightarrow> k' = k \<or> k' \<in> fst ` set xs"
    by (simp add: map_of_eq_None_iff)
  finally show ?thesis .
qed

lemma distinct_map_set: "distinct (map fst xs) \<Longrightarrow> distinct (map fst (map_set xs k v))"
proof (induction xs)
  case Nil
  show ?case by simp
next
  case (Cons p xs)
  obtain k' v' where p: "p = (k', v')" by (cases p)
  show ?case
  proof (cases "k' = k")
    case True
    then show ?thesis using Cons.prems p by simp
  next
    case False
    have "k' \<notin> fst ` set (map_set xs k v)"
      using Cons.prems p False by (simp add: keys_map_set)
    then show ?thesis using Cons p False by simp
  qed
qed

lemma distinct_filter_keys: "distinct (map fst xs) \<Longrightarrow> distinct (map fst (filter P xs))"
  by (induction xs) auto

lemma map_of_filter_keys:
  "distinct (map fst xs) \<Longrightarrow>
   map_of (filter P xs) k =
     (case map_of xs k of None \<Rightarrow> None | Some e \<Rightarrow> if P (k, e) then Some e else None)"
proof (induction xs)
  case Nil
  show ?case by simp
next
  case (Cons p xs)
  obtain k' v' where p: "p = (k', v')" by (cases p)
  have ih: "map_of (filter P xs) k =
     (case map_of xs k of None \<Rightarrow> None | Some e \<Rightarrow> if P (k, e) then Some e else None)"
    using Cons by simp
  have notin: "k' \<notin> fst ` set xs" using Cons.prems p by simp
  show ?case
  proof (cases "k' = k")
    case True
    with notin have "map_of xs k = None" by (simp add: map_of_eq_None_iff)
    with ih True p show ?thesis by simp
  next
    case False
    with ih p show ?thesis by simp
  qed
qed

lemma distinct_evictOldest:
  "distinct (map fst (cache c)) \<Longrightarrow> distinct (map fst (cache (evictOldest now c)))"
  by (simp add: evictOldest_def map_delete_def distinct_filter_keys split: option.splits list.splits)

lemma distinct_set:
  "distinct (map fst (cache c)) \<Longrightarrow> distinct (map fst (cache (MemoryCache_set now enow k v t c)))"
  by (simp add: MemoryCache_set_def Let_def distinct_map_set distinct_evictOldest)

lemma set_stores_entry:
  "map_of (cache (MemoryCache_set now enow k v t c)) k =
     Some \<lparr>data = v, timestamp = now, ttl = (case t of Some x \<Rightarrow> x | None \<Rightarrow> defaultTtl c), hits = 0\<rparr>"
  by (simp add: MemoryCache_set_def Let_def map_of_map_set evictOldest_def
        split: option.splits list.splits)

lemma get_result:
  "fst (MemoryCache_get now k c) =
     (case map_of (cache c) k of
        None \<Rightarrow> None
      | Some e \<Rightarrow> if now - timestamp e \<le> ttl e then Some (data e) else None)"
  by (simp add: MemoryCache_get_def split: option.splits)

lemma get_expired_removes:
  "map_of (cache c) k = Some e \<Longrightarrow> ttl e < now - timestamp e \<Longrightarrow>
   map_of (cache (snd (MemoryCache_get now k c))) k = None"
  by (simp add: MemoryCache_get_def map_of_map_delete)

lemma cleanup_lookup:
  "distinct (map fst (cache c)) \<Longrightarrow>
   map_of (cache (cleanup tc c)) k =
     (case map_of (cache c) k of
        None \<Rightarrow> None
      | Some e \<Rightarrow> if tc - timestamp e \<le> ttl e then Some e else None)"
  by (simp add: cleanup_def map_of_filter_keys not_less split: option.splits)

subsection \<open>Expiry on read\<close>

text \<open>
  C2, as the code has it. An entry is expired when \<open>now - timestamp > ttl\<close>, in \<open>get\<close>,
  \<open>has\<close> and \<open>cleanup\<close> alike. So \<open>get\<close> returns the value of a stored entry as long as
  \<open>now - timestamp \<le> ttl\<close>, the instant \<open>now - timestamp = ttl\<close> included, and nothing
  afterwards; a \<open>cleanup\<close> that ran at an earlier time changes neither answer; an expired
  read removes the entry, so that every later read of the key finds nothing. \<open>set\<close> stores
  the value with the time of the call and the given or the default time to live, and keeps
  the keys of the map distinct.
\<close>

theorem get_ttl:
  assumes "distinct (map fst (cache c))" and "map_of (cache c) k = Some e"
  shows "fst (MemoryCache_get now k c) = (if now - timestamp e \<le> ttl e then Some (data e) else None)
    \<and> (tc \<le> now \<longrightarrow>
         fst (MemoryCache_get now k (cleanup tc c))
           = (if now - timestamp e \<le> ttl e then Some (data e) else None))
    \<and> (ttl e < now - timestamp e \<longrightarrow>
         fst (MemoryCache_get now' k (snd (MemoryCache_get now k c))) = None)
    \<and> map_of (cache (MemoryCache_set t0 te k' v topt c)) k'
         = Some \<lparr>data = v, timestamp = t0,
                 ttl = (case topt of Some x \<Rightarrow> x | None \<Rightarrow> defaultTtl c), hits = 0\<rparr>
    \<and> distinct (map fst (cache (MemoryCache_set t0 te k' v topt c)))"
proof (intro conjI impI)
  show "fst (MemoryCache_get now k c) = (if now - timestamp e \<le> ttl e then Some (data e) else None)"
    using assms(2) by (simp add: get_result)
next
  assume "tc \<le> now"
  then show "fst (MemoryCache_get now k (cleanup tc c))
           = (if now - timestamp e \<le> ttl e then Some (data e) else None)"
    using assms by (auto simp add: get_result cleanup_lookup)
next
  assume "ttl e < now - timestamp e"
  then have "map_of (cache (snd (MemoryCache_get now k c))) k = None"
    using assms(2) by (rule get_expired_removes [rotated])
  then show "fst (MemoryCache_get now' k (snd (MemoryCache_get now k c))) = None"
    by (simp add: get_result)
next
  show "map_of (cache (MemoryCache_set t0 te k' v topt c)) k'
         = Some \<lparr>data = v, timestamp = t0,
                 ttl = (case topt of Some x \<Rightarrow> x | None \<Rightarrow> defaultTtl c), hits = 0\<rparr>"
    by (rule set_stores_entry)
next
  show "distinct (map fst (cache (MemoryCache_set t0 te k' v topt c)))"
    using assms(1) by (rule distinct_set)
qed

theorem get_ttl_witness:
  "fst (MemoryCache_get 10 ''k''
          (MemoryCache_set 0 0 ''k'' (42::nat) (Some 10) (new_MemoryCache 500 300000))) = Some 42
   \<and> fst (MemoryCache_get 10 ''k'' (cleanup 5
          (MemoryCache_set 0 0 ''k'' (42::nat) (Some 10) (new_MemoryCache 500 300000)))) = Some 42
   \<and> fst (MemoryCache_get 11 ''k''
          (MemoryCache_set 0 0 ''k'' (42::nat) (Some 10) (new_MemoryCache 500 300000))) = None"
  using get_ttl [of "MemoryCache_set 0 0 ''k'' (42::nat) (Some 10) (new_MemoryCache 500 300000)"
      "''k''" "\<lparr>data = 42, timestamp = 0, ttl = 10, hits = 0\<rparr>" 10 5]
    get_ttl [of "MemoryCache_set 0 0 ''k'' (42::nat) (Some 10) (new_MemoryCache 500 300000)"
      "''k''" "\<lparr>data = 42, timestamp = 0, ttl = 10, hits = 0\<rparr>" 11 5]
  by (simp add: MemoryCache_set_def new_MemoryCache_def map_has_def Let_def)

text \<open>
  C2 as stated has every read with \<open>now - createdAt \<ge> ttl\<close> return nothing. An entry set
  at time 0 with a time to live of 10 is still returned at time 10.
\<close>

theorem get_at_ttl_counterexample:
  "fst (MemoryCache_get 10 ''k''
          (MemoryCache_set 0 0 ''k'' (42::nat) (Some 10) (new_MemoryCache 500 300000))) = Some 42"
  by (simp add: MemoryCache_get_def MemoryCache_set_def new_MemoryCache_def map_has_def Let_def)

subsection \<open>Capacity\<close>

text \<open>
  The behaviour that \<open>evictOldest\<close> is written for: when every stored entry is older than
  the clock reading of the eviction and no stored key is empty, a \<open>set\<close> of a new key at
  capacity removes exactly one entry, one with the smallest timestamp, appends the new
  entry, and the size stays within \<open>maxSize\<close>.
\<close>

lemma evict_scan_inv:
  "snd (evict_scan acc xs) \<le> snd acc
   \<and> (\<forall>p\<in>set xs. snd (evict_scan acc xs) \<le> timestamp (snd p))
   \<and> (evict_scan acc xs = acc
       \<or> (\<exists>p\<in>set xs. evict_scan acc xs = (Some (fst p), timestamp (snd p))))"
proof (induction xs arbitrary: acc)
  case Nil
  show ?case by simp
next
  case (Cons p xs)
  obtain k e where p: "p = (k, e)" by (cases p)
  show ?case
  proof (cases "timestamp e < snd acc")
    case True
    then have step: "evict_scan acc (p # xs) = evict_scan (Some k, timestamp e) xs"
      by (simp add: p)
    from Cons.IH [of "(Some k, timestamp e)"] True show ?thesis
      unfolding step by (auto simp: p)
  next
    case False
    then have step: "evict_scan acc (p # xs) = evict_scan acc xs"
      by (simp add: p)
    from Cons.IH [of acc] False show ?thesis
      unfolding step by (auto simp: p)
  qed
qed

lemma evict_scan_finds_oldest:
  assumes "\<exists>p\<in>set xs. timestamp (snd p) < now"
  shows "\<exists>p\<in>set xs. fst (evict_scan (None, now) xs) = Some (fst p)
           \<and> (\<forall>q\<in>set xs. timestamp (snd p) \<le> timestamp (snd q))"
proof -
  from assms obtain q where q: "q \<in> set xs" "timestamp (snd q) < now" by blast
  have inv: "(\<forall>p\<in>set xs. snd (evict_scan (None, now) xs) \<le> timestamp (snd p))
     \<and> (evict_scan (None, now) xs = (None, now)
       \<or> (\<exists>p\<in>set xs. evict_scan (None, now) xs = (Some (fst p), timestamp (snd p))))"
    using evict_scan_inv [of "(None, now)" xs] by simp
  then have "snd (evict_scan (None, now) xs) \<le> timestamp (snd q)" using q(1) by blast
  with q(2) have "evict_scan (None, now) xs \<noteq> (None, now)" by auto
  with inv obtain p where p: "p \<in> set xs"
      "evict_scan (None, now) xs = (Some (fst p), timestamp (snd p))" by blast
  with inv have "\<forall>q\<in>set xs. timestamp (snd p) \<le> timestamp (snd q)" by simp
  with p show ?thesis by auto
qed

lemma length_map_delete:
  "distinct (map fst xs) \<Longrightarrow> p \<in> set xs \<Longrightarrow> Suc (length (map_delete xs (fst p))) = length xs"
proof (induction xs)
  case Nil
  then show ?case by simp
next
  case (Cons x xs)
  show ?case
  proof (cases "x = p")
    case True
    have "fst p \<notin> fst ` set xs" using Cons.prems(1) True by simp
    then have "\<forall>q\<in>set xs. fst q \<noteq> fst p" by (metis imageI)
    then have "filter (\<lambda>q. fst q \<noteq> fst p) xs = xs" by (simp add: filter_id_conv)
    then show ?thesis using True by (simp add: map_delete_def)
  next
    case False
    then have mem: "p \<in> set xs" using Cons.prems(2) by simp
    then have "fst x \<noteq> fst p" using Cons.prems(1) by auto
    moreover have "Suc (length (map_delete xs (fst p))) = length xs"
      using Cons.IH Cons.prems(1) mem by simp
    ultimately show ?thesis by (simp add: map_delete_def)
  qed
qed

lemma map_set_absent: "map_of xs k = None \<Longrightarrow> map_set xs k v = xs @ [(k, v)]"
  by (induction xs) (auto split: if_splits)

lemma length_map_set:
  "length (map_set xs k v) = (if map_of xs k = None then Suc (length xs) else length xs)"
  by (induction xs) auto

lemma set_within_capacity:
  assumes dist: "distinct (map fst (cache c))"
    and size: "int (length (cache c)) \<le> maxSize c" and pos: "1 \<le> maxSize c"
    and older: "\<forall>p\<in>set (cache c). timestamp (snd p) < enow \<and> fst p \<noteq> []"
  shows "int (length (cache (MemoryCache_set now enow k v t c))) \<le> maxSize c
    \<and> (maxSize c \<le> int (length (cache c)) \<and> \<not> map_has (cache c) k \<longrightarrow>
         (\<exists>p\<in>set (cache c). (\<forall>q\<in>set (cache c). timestamp (snd p) \<le> timestamp (snd q))
            \<and> cache (MemoryCache_set now enow k v t c)
                = map_delete (cache c) (fst p)
                  @ [(k, \<lparr>data = v, timestamp = now,
                          ttl = (case t of Some x \<Rightarrow> x | None \<Rightarrow> defaultTtl c), hits = 0\<rparr>)]))"
proof (cases "maxSize c \<le> int (length (cache c)) \<and> \<not> map_has (cache c) k")
  case False
  then have "cache (MemoryCache_set now enow k v t c)
      = map_set (cache c) k \<lparr>data = v, timestamp = now,
                          ttl = (case t of Some x \<Rightarrow> x | None \<Rightarrow> defaultTtl c), hits = 0\<rparr>"
    by (auto simp add: MemoryCache_set_def Let_def)
  then show ?thesis using False size by (auto simp: length_map_set map_has_def)
next
  case True
  then have full: "maxSize c \<le> int (length (cache c))" and new: "map_of (cache c) k = None"
    by (simp_all add: map_has_def)
  from full pos have "cache c \<noteq> []" by auto
  then obtain q where "q \<in> set (cache c)" by (cases "cache c") auto
  with older have "\<exists>p\<in>set (cache c). timestamp (snd p) < enow" by blast
  then obtain p where p: "p \<in> set (cache c)"
      "fst (evict_scan (None, enow) (cache c)) = Some (fst p)"
      "\<forall>q\<in>set (cache c). timestamp (snd p) \<le> timestamp (snd q)"
    using evict_scan_finds_oldest [of "cache c" enow] by blast
  from p(1) older have "fst p \<noteq> []" by blast
  then have ev: "cache (evictOldest enow c) = map_delete (cache c) (fst p)"
    using p(2) by (cases "fst p") (simp_all add: evictOldest_def)
  have absent: "map_of (map_delete (cache c) (fst p)) k = None"
    using new by (simp add: map_of_map_delete)
  have eq: "cache (MemoryCache_set now enow k v t c)
      = map_delete (cache c) (fst p)
        @ [(k, \<lparr>data = v, timestamp = now,
                ttl = (case t of Some x \<Rightarrow> x | None \<Rightarrow> defaultTtl c), hits = 0\<rparr>)]"
    using True ev absent
    by (simp add: MemoryCache_set_def Let_def map_set_absent evictOldest_def split: option.splits list.splits)
  have "Suc (length (map_delete (cache c) (fst p))) = length (cache c)"
    using dist p(1) by (rule length_map_delete)
  then have "int (length (cache (MemoryCache_set now enow k v t c))) \<le> maxSize c"
    using size eq by simp
  with eq p True show ?thesis by blast
qed

text \<open>
  C1 at two inputs that the code does not handle. A cache of capacity 1 receives two
  \<open>set\<close> calls within one millisecond: \<open>evictOldest\<close> starts its search from the current
  time and looks for a strictly smaller timestamp, finds none, and both entries stay. And
  when the oldest entry has the empty string as its key, \<open>if (oldestKey)\<close> is false and
  nothing is removed. A \<open>set\<close> one millisecond or more after the first, on non-empty keys,
  evicts as intended.
\<close>

theorem set_over_capacity:
  "cache (MemoryCache_set 1000 1000 ''b'' (2::nat) None
            (MemoryCache_set 1000 1000 ''a'' 1 None (new_MemoryCache 1 300000)))
     = [(''a'', \<lparr>data = 1, timestamp = 1000, ttl = 300000, hits = 0\<rparr>),
        (''b'', \<lparr>data = 2, timestamp = 1000, ttl = 300000, hits = 0\<rparr>)]
   \<and> maxSize (MemoryCache_set 1000 1000 ''b'' (2::nat) None
            (MemoryCache_set 1000 1000 ''a'' 1 None (new_MemoryCache 1 300000))) = 1
   \<and> cache (MemoryCache_set 2000 2000 ''b'' (2::nat) None
            (MemoryCache_set 1000 1000 [] 1 None (new_MemoryCache 1 300000)))
     = [([], \<lparr>data = 1, timestamp = 1000, ttl = 300000, hits = 0\<rparr>),
        (''b'', \<lparr>data = 2, timestamp = 2000, ttl = 300000, hits = 0\<rparr>)]
   \<and> cache (MemoryCache_set 2000 2000 ''b'' (2::nat) None
            (MemoryCache_set 1000 1000 ''a'' 1 None (new_MemoryCache 1 300000)))
     = [(''b'', \<lparr>data = 2, timestamp = 2000, ttl = 300000, hits = 0\<rparr>)]"
  by (simp add: MemoryCache_set_def new_MemoryCache_def map_has_def Let_def evictOldest_def
        map_delete_def)

subsection \<open>Hit and miss accounting\<close>

lemma set_keeps_stats:
  "stats_hits (MemoryCache_set now enow k v t c) = stats_hits c \<and>
   stats_misses (MemoryCache_set now enow k v t c) = stats_misses c"
  by (simp add: MemoryCache_set_def evictOldest_def Let_def split: option.splits list.splits)

lemma has_keeps_stats:
  "stats_hits (snd (MemoryCache_has now k c)) = stats_hits c \<and>
   stats_misses (snd (MemoryCache_has now k c)) = stats_misses c"
  by (simp add: MemoryCache_has_def split: option.splits)

lemma delete_keeps_stats:
  "stats_hits (snd (MemoryCache_delete k c)) = stats_hits c \<and>
   stats_misses (snd (MemoryCache_delete k c)) = stats_misses c"
  by (simp add: MemoryCache_delete_def)

lemma cleanup_keeps_stats:
  "stats_hits (cleanup now c) = stats_hits c \<and> stats_misses (cleanup now c) = stats_misses c"
  by (simp add: cleanup_def)

lemma get_counts_once:
  "stats_hits (snd (MemoryCache_get now k c)) + stats_misses (snd (MemoryCache_get now k c))
     = Suc (stats_hits c + stats_misses c)"
  by (simp add: MemoryCache_get_def split: option.splits)

lemma apply_op_counts:
  "stats_hits (apply_op c op) + stats_misses (apply_op c op)
     = count_get (stats_hits c + stats_misses c) op"
  by (cases op)
     (simp_all add: set_keeps_stats has_keeps_stats delete_keeps_stats cleanup_keeps_stats
        get_counts_once MemoryCache_clear_def)

lemma run_ops_counts:
  "stats_hits (run_ops c ops) + stats_misses (run_ops c ops)
     = foldl count_get (stats_hits c + stats_misses c) ops"
  unfolding run_ops_def
proof (induction ops arbitrary: c)
  case Nil
  show ?case by simp
next
  case (Cons op ops)
  show ?case by (simp add: Cons.IH apply_op_counts)
qed

text \<open>
  C5. From a new cache, after any sequence of \<open>set\<close>, \<open>get\<close>, \<open>has\<close>, \<open>delete\<close>,
  \<open>clear\<close> and \<open>cleanup\<close>, the hits and misses that \<open>getStats\<close> reports add up to the
  number of \<open>get\<close> calls since the last \<open>clear\<close>. The hit rate of any cache is
  \<open>hits / (hits + misses)\<close>, and 0 when there has been no request. \<open>set\<close>, \<open>has\<close> and
  \<open>delete\<close> leave both counters as they are.
\<close>

theorem getStats_accounting:
  "totalHits (getStats (run_ops (new_MemoryCache m d) ops))
     + totalMisses (getStats (run_ops (new_MemoryCache m d) ops)) = gets_since_clear ops
   \<and> hitRate (getStats c) =
       (if totalHits (getStats c) + totalMisses (getStats c) = 0 then 0
        else real (totalHits (getStats c))
               / real (totalHits (getStats c) + totalMisses (getStats c)))
   \<and> totalHits (getStats (MemoryCache_set now enow k v t c)) = totalHits (getStats c)
   \<and> totalMisses (getStats (MemoryCache_set now enow k v t c)) = totalMisses (getStats c)
   \<and> totalHits (getStats (snd (MemoryCache_has now k c))) = totalHits (getStats c)
   \<and> totalMisses (getStats (snd (MemoryCache_has now k c))) = totalMisses (getStats c)
   \<and> totalHits (getStats (snd (MemoryCache_delete k c))) = totalHits (getStats c)
   \<and> totalMisses (getStats (snd (MemoryCache_delete k c))) = totalMisses (getStats c)"
proof -
  have "stats_hits (run_ops (new_MemoryCache m d) ops)
          + stats_misses (run_ops (new_MemoryCache m d) ops) = gets_since_clear ops"
    using run_ops_counts [of "new_MemoryCache m d" ops]
    by (simp add: new_MemoryCache_def gets_since_clear_def)
  then show ?thesis
    by (simp add: getStats_def Let_def set_keeps_stats has_keeps_stats delete_keeps_stats)
qed

section \<open>Properties of the cache keys\<close>

text \<open>
  C7. Leaving out \<open>sentenceWindowSize\<close> gives the key of \<open>sentenceWindowSize = 3\<close>.
\<close>

theorem query_key_default_window:
  "generateQueryCacheKey q k rerank llmRerank None
     = generateQueryCacheKey q k rerank llmRerank (Some 3)"
  by (simp add: generateQueryCacheKey_def num_or_def)

text \<open>
  C9. Leaving out \<open>enableRerank\<close> and \<open>enableLLMRerank\<close> gives the key of passing
  \<open>false\<close> for both: each flag is encoded as \<open>0\<close> either way.
\<close>

theorem query_key_absent_flags:
  "generateQueryCacheKey q k None None w
     = generateQueryCacheKey q k (Some False) (Some False) w
   \<and> flag_text None = ''0'' \<and> flag_text (Some False) = ''0''"
  by (simp add: generateQueryCacheKey_def flag_text_def)


subsection \<open>Which arguments a key tells apart\<close>

lemma digit_chars_facts: "distinct digit_chars" "length digit_chars = 36" "CHR ''-'' \<notin> set digit_chars"
  by (simp_all add: digit_chars_def)

lemma digit_char_inj:
  assumes "a < 36" and "b < 36" and "digit_char a = digit_char b"
  shows "a = b"
  using assms nth_eq_iff_index_eq [OF digit_chars_facts(1), of a b]
  unfolding digit_char_def digit_chars_facts(2) by simp

lemma digit_char_mem: "d < 36 \<Longrightarrow> digit_char d \<in> set digit_chars"
  unfolding digit_char_def by (rule nth_mem) (simp add: digit_chars_facts)

lemma toString_radix_small:
  "2 \<le> b \<Longrightarrow> b \<le> 36 \<Longrightarrow> n < b \<Longrightarrow> toString_radix b n = [digit_char n]"
  by (subst toString_radix.simps) simp

lemma toString_radix_large:
  "2 \<le> b \<Longrightarrow> b \<le> 36 \<Longrightarrow> \<not> n < b \<Longrightarrow>
   toString_radix b n = toString_radix b (n div b) @ [digit_char (n mod b)]"
  by (subst toString_radix.simps) simp

lemma toString_radix_nonempty: "2 \<le> b \<Longrightarrow> b \<le> 36 \<Longrightarrow> toString_radix b n \<noteq> []"
  by (cases "n < b") (simp_all add: toString_radix_small toString_radix_large)

lemma toString_radix_chars:
  "2 \<le> b \<Longrightarrow> b \<le> 36 \<Longrightarrow> set (toString_radix b n) \<subseteq> set digit_chars"
proof (induction b n rule: toString_radix.induct)
  case (1 b n)
  have b: "2 \<le> b" "b \<le> 36" by fact+
  show ?case
  proof (cases "n < b")
    case True
    then have "n < 36" using b by simp
    then have "digit_char n \<in> set digit_chars" by (rule digit_char_mem)
    then show ?thesis by (simp add: toString_radix_small [OF b True])
  next
    case False
    have "n mod b < b" using b by simp
    then have "n mod b < 36" using b by linarith
    then have m: "digit_char (n mod b) \<in> set digit_chars" by (rule digit_char_mem)
    have ih: "set (toString_radix b (n div b)) \<subseteq> set digit_chars"
      using "1.IH" b False by simp
    show ?thesis using ih m by (simp add: toString_radix_large [OF b False])
  qed
qed

lemma toString_radix_inj:
  "2 \<le> b \<Longrightarrow> b \<le> 36 \<Longrightarrow> toString_radix b n = toString_radix b m \<Longrightarrow> n = m"
proof (induction b n arbitrary: m rule: toString_radix.induct)
  case (1 b n)
  have b: "2 \<le> b" "b \<le> 36" by fact+
  have modn: "n mod b < 36" and modm: "m mod b < 36"
    using b by (auto intro: less_le_trans [OF mod_less_divisor])
  show ?case
  proof (cases "n < b")
    case n: True
    show ?thesis
    proof (cases "m < b")
      case True
      with n b "1.prems"(3) have "digit_char n = digit_char m"
        by (simp add: toString_radix_small)
      then show ?thesis using n True b by (intro digit_char_inj) auto
    next
      case False
      with n b "1.prems"(3) have "toString_radix b (m div b) = []"
        by (simp add: toString_radix_small toString_radix_large)
      then show ?thesis using toString_radix_nonempty [OF b] by simp
    qed
  next
    case n: False
    show ?thesis
    proof (cases "m < b")
      case True
      with n b "1.prems"(3) have "toString_radix b (n div b) = []"
        by (simp add: toString_radix_small toString_radix_large)
      then show ?thesis using toString_radix_nonempty [OF b] by simp
    next
      case False
      with n b "1.prems"(3)
      have eq: "toString_radix b (n div b) = toString_radix b (m div b)"
        and dg: "digit_char (n mod b) = digit_char (m mod b)"
        by (simp_all add: toString_radix_large)
      have "n div b = m div b"
        using "1.IH" [of "m div b"] n b eq by simp
      moreover have "n mod b = m mod b"
        using dg modn modm by (rule digit_char_inj [rotated 2])
      ultimately show ?thesis by (metis div_mult_mod_eq)
    qed
  qed
qed

lemma toString_radix_eq_iff:
  "2 \<le> b \<Longrightarrow> b \<le> 36 \<Longrightarrow> toString_radix b n = toString_radix b m \<longleftrightarrow> n = m"
  using toString_radix_inj by blast

lemma toString_radix_no_minus: "toString_radix 10 n \<noteq> CHR ''-'' # s"
proof
  assume "toString_radix 10 n = CHR ''-'' # s"
  then have "CHR ''-'' \<in> set (toString_radix 10 n)" by simp
  moreover have "set (toString_radix 10 n) \<subseteq> set digit_chars"
    by (rule toString_radix_chars) simp_all
  ultimately show False using digit_chars_facts(3) by auto
qed

lemma part_text_Num_eq_iff: "part_text (Num a) = part_text (Num b) \<longleftrightarrow> a = b"
proof
  assume eq: "part_text (Num a) = part_text (Num b)"
  show "a = b"
  proof (cases "a < 0")
    case a: True
    show ?thesis
    proof (cases "b < 0")
      case True
      with a eq have "nat (- a) = nat (- b)" by (simp add: toString_radix_eq_iff)
      with a True show ?thesis by simp
    next
      case False
      with a eq show ?thesis using toString_radix_no_minus [of "nat b"] by (simp del: nat_numeral) (metis)
    qed
  next
    case a: False
    show ?thesis
    proof (cases "b < 0")
      case True
      with a eq show ?thesis using toString_radix_no_minus [of "nat a"] by simp
    next
      case False
      with a eq have "nat a = nat b" by (simp add: toString_radix_eq_iff)
      with a False show ?thesis by simp
    qed
  qed
qed simp

lemma simpleHash_eq_iff:
  "simpleHash p = simpleHash q \<longleftrightarrow> \<bar>sint (hash32 p)\<bar> = \<bar>sint (hash32 q)\<bar>"
  by (simp add: simpleHash_def toString_radix_eq_iff eq_nat_nat_iff)

lemma flag_text_eq_iff: "flag_text f = flag_text g \<longleftrightarrow> (f = Some True) = (g = Some True)"
  by (simp add: flag_text_def)

text \<open>
  C6, as the code has it. The key is a function of its arguments alone. With the other
  arguments fixed, two values of \<open>topK\<close> give the same key only if they are equal; two
  values of a rerank flag give the same key exactly when both are \<open>true\<close> or neither is;
  two values of \<open>sentenceWindowSize\<close> give the same key exactly when they agree after
  \<open>|| 3\<close>; and two questions give the same key exactly when the absolute values of their
  32-bit hashes agree.
\<close>

theorem query_key_single_change:
  "(generateQueryCacheKey q k r l w = generateQueryCacheKey q k' r l w \<longleftrightarrow> k = k')
   \<and> (generateQueryCacheKey q k r l w = generateQueryCacheKey q k r' l w
        \<longleftrightarrow> (r = Some True) = (r' = Some True))
   \<and> (generateQueryCacheKey q k r l w = generateQueryCacheKey q k r l' w
        \<longleftrightarrow> (l = Some True) = (l' = Some True))
   \<and> (generateQueryCacheKey q k r l w = generateQueryCacheKey q k r l w'
        \<longleftrightarrow> num_or w 3 = num_or w' 3)
   \<and> (generateQueryCacheKey q k r l w = generateQueryCacheKey q' k r l w
        \<longleftrightarrow> \<bar>sint (hash32 q)\<bar> = \<bar>sint (hash32 q')\<bar>)"
  by (simp add: generateQueryCacheKey_def generateCacheKey_def part_text_Num_eq_iff
        simpleHash_eq_iff flag_text_eq_iff del: part_text.simps(2))

text \<open>
  C6 as stated has every change of the question change the key. The questions \<open>AaA\<close>
  and \<open>BBA\<close> (code units 65, 97, 65 and 66, 66, 65) have the same hash, 65537, and with
  it the same key.
\<close>

theorem query_key_collision:
  "[65, 97, 65] \<noteq> ([66, 66, 65] :: jsstring)
   \<and> generateQueryCacheKey [65, 97, 65] 5 None None None
       = generateQueryCacheKey [66, 66, 65] 5 None None None"
proof -
  have "hash32 [65, 97, 65] = hash32 [66, 66, 65]"
    by (simp add: hash32_def hash_step_def)
  then show ?thesis
    by (simp add: generateQueryCacheKey_def simpleHash_def)
qed

section \<open>Properties of \<open>ipFromHeaders\<close>\<close>

lemma split_first_spec:
  "\<exists>rest. x = split_first c x @ rest \<and> (rest = [] \<or> hd rest = c) \<and> c \<notin> set (split_first c x)"
proof (intro exI conjI)
  show "x = split_first c x @ dropWhile (\<lambda>d. d \<noteq> c) x"
    by (simp add: split_first_def)
  show "dropWhile (\<lambda>d. d \<noteq> c) x = [] \<or> hd (dropWhile (\<lambda>d. d \<noteq> c) x) = c"
    using hd_dropWhile [of "\<lambda>d. d \<noteq> c" x] by auto
  show "c \<notin> set (split_first c x)"
    by (auto simp: split_first_def dest: set_takeWhileD)
qed

lemma trim_spec:
  "\<exists>l r. s = l @ trim s @ r \<and> (\<forall>c\<in>set l. js_space c) \<and> (\<forall>c\<in>set r. js_space c)
     \<and> (trim s \<noteq> [] \<longrightarrow> \<not> js_space (hd (trim s)) \<and> \<not> js_space (last (trim s)))"
proof -
  define d where "d = dropWhile js_space s"
  define r where "r = rev (takeWhile js_space (rev d))"
  have t: "trim s = rev (dropWhile js_space (rev d))" by (simp add: trim_def d_def)
  have "rev (takeWhile js_space (rev d) @ dropWhile js_space (rev d)) = d"
    by (simp only: takeWhile_dropWhile_id rev_rev_ident)
  then have "rev (dropWhile js_space (rev d)) @ rev (takeWhile js_space (rev d)) = d"
    by (simp only: rev_append)
  then have d_eq: "d = trim s @ r" unfolding t r_def by (rule sym)
  have s_eq: "s = takeWhile js_space s @ trim s @ r"
    using d_eq takeWhile_dropWhile_id [of js_space s] by (simp add: d_def)
  have l_sp: "\<forall>c\<in>set (takeWhile js_space s). js_space c" by (auto dest: set_takeWhileD)
  have r_sp: "\<forall>c\<in>set r. js_space c" by (auto simp: r_def dest: set_takeWhileD)
  have ends: "\<not> js_space (hd (trim s)) \<and> \<not> js_space (last (trim s))" if ne: "trim s \<noteq> []"
  proof
    from ne d_eq have "d \<noteq> []" by auto
    then have "\<not> js_space (hd d)" unfolding d_def by (rule hd_dropWhile)
    moreover have "hd d = hd (trim s)" using d_eq ne by (metis hd_append2)
    ultimately show "\<not> js_space (hd (trim s))" by simp
    have "dropWhile js_space (rev d) \<noteq> []" using ne t by simp
    then have "\<not> js_space (hd (dropWhile js_space (rev d)))" by (rule hd_dropWhile)
    then show "\<not> js_space (last (trim s))" using ne t by (simp add: last_rev)
  qed
  show ?thesis using s_eq l_sp r_sp ends by blast
qed

text \<open>
  C10, as the code has it. A header counts when it is present and not empty. Then the
  result is the trimmed first comma-separated entry of \<open>x-forwarded-for\<close>; without that
  header, the value of \<open>x-real-ip\<close>; without either, \<open>unknown\<close>, so that all such
  requests to one endpoint use the bucket key \<open>endpoint:unknown\<close>.
\<close>

theorem ipFromHeaders_cases:
  "(h ''x-forwarded-for'' = Some x \<and> x \<noteq> [] \<longrightarrow>
      ipFromHeaders h = trim (split_first CHR '','' x))
   \<and> ((h ''x-forwarded-for'' = None \<or> h ''x-forwarded-for'' = Some [])
        \<and> h ''x-real-ip'' = Some r \<and> r \<noteq> [] \<longrightarrow> ipFromHeaders h = r)
   \<and> ((h ''x-forwarded-for'' = None \<or> h ''x-forwarded-for'' = Some [])
        \<and> (h ''x-real-ip'' = None \<or> h ''x-real-ip'' = Some []) \<longrightarrow>
        ipFromHeaders h = ''unknown'' \<and> bucket_key e (ipFromHeaders h) = e @ '':unknown'')"
  by (auto simp: ipFromHeaders_def bucket_key_def split: option.splits list.splits)

theorem ipFromHeaders_cases_witness:
  "ipFromHeaders [''x-forwarded-for'' \<mapsto> '' 203.0.113.9 , 10.0.0.1''] = ''203.0.113.9''
   \<and> ipFromHeaders [''x-real-ip'' \<mapsto> ''10.0.0.7''] = ''10.0.0.7''
   \<and> ipFromHeaders Map.empty = ''unknown''
   \<and> bucket_key ''chat'' (ipFromHeaders Map.empty) = ''chat:unknown''"
  using ipFromHeaders_cases [of "[''x-forwarded-for'' \<mapsto> '' 203.0.113.9 , 10.0.0.1'']"
      "'' 203.0.113.9 , 10.0.0.1''" "''203.0.113.9''" "''chat''"]
    ipFromHeaders_cases [of "[''x-real-ip'' \<mapsto> ''10.0.0.7'']" "[]" "''10.0.0.7''" "''chat''"]
    ipFromHeaders_cases [of "Map.empty" "[]" "[]" "''chat''"]
  by (simp add: trim_def split_first_def js_space_def bucket_key_def)

text \<open>
  C10 as stated takes the first entry of \<open>x-forwarded-for\<close> whenever the header is
  present. A request with an empty \<open>x-forwarded-for\<close> and \<open>x-real-ip: 10.0.0.7\<close> gets
  \<open>10.0.0.7\<close>, not the empty first entry.
\<close>

theorem ipFromHeaders_empty_counterexample:
  "[''x-forwarded-for'' \<mapsto> [], ''x-real-ip'' \<mapsto> ''10.0.0.7''] ''x-forwarded-for'' = Some []
   \<and> trim (split_first CHR '','' []) = []
   \<and> ipFromHeaders [''x-forwarded-for'' \<mapsto> [], ''x-real-ip'' \<mapsto> ''10.0.0.7''] = ''10.0.0.7''"
  by (simp add: ipFromHeaders_def trim_def split_first_def)


section \<open>What the handlers store in the response cache\<close>

lemma map_delete_absent: "map_of xs k = None \<Longrightarrow> map_delete xs k = xs"
  unfolding map_delete_def by (induction xs) (auto split: if_splits)

lemma get_miss_cache:
  assumes "fst (MemoryCache_get t k c) = None"
  shows "cache (snd (MemoryCache_get t k c)) = map_delete (cache c) k"
    and "map_of (cache c) k = Some e \<Longrightarrow> ttl e < t - timestamp e"
  using assms
  by (auto simp: MemoryCache_get_def map_delete_absent split: option.splits if_splits)

lemma chat_POST_no_set:
  assumes "case backend of None \<Rightarrow> True | Some resp \<Rightarrow> \<not> ok (status resp)"
  shows "(snd (snd (chat_POST t_rl t_get t_set t_ev hdrs json backend (bs, c))) = c
          \<and> fst (chat_POST t_rl t_get t_set t_ev hdrs json backend (bs, c))
               \<in> {Inl RateLimitError, Inl ZodError})
       \<or> (snd (snd (chat_POST t_rl t_get t_set t_ev hdrs json backend (bs, c)))
             = snd (MemoryCache_get t_get (cacheKey_of json) c)
          \<and> fst (chat_POST t_rl t_get t_set t_ev hdrs json backend (bs, c))
             = (case fst (MemoryCache_get t_get (cacheKey_of json) c) of
                  Some v \<Rightarrow> Inr v
                | None \<Rightarrow> Inl (case backend of None \<Rightarrow> FetchError
                              | Some resp \<Rightarrow> ExternalServiceError (status resp))))"
  using assms
  by (auto simp: chat_POST_def bodySchema_parse_def Let_def split_def
        split: sum.splits option.splits if_splits)

lemma chat_POST_stores:
  assumes "snd (snd (chat_POST t_rl t_get t_set t_ev hdrs json backend (bs, c))) \<noteq> c"
    and "snd (snd (chat_POST t_rl t_get t_set t_ev hdrs json backend (bs, c)))
           \<noteq> snd (MemoryCache_get t_get (cacheKey_of json) c)"
  shows "\<exists>resp. backend = Some resp \<and> ok (status resp)
           \<and> fst (MemoryCache_get t_get (cacheKey_of json) c) = None
           \<and> snd (snd (chat_POST t_rl t_get t_set t_ev hdrs json backend (bs, c)))
               = MemoryCache_set t_set t_ev (cacheKey_of json)
                   (QueryResult (answer resp) (case sources resp of None \<Rightarrow> [] | Some xs \<Rightarrow> xs))
                   (Some 300000) (snd (MemoryCache_get t_get (cacheKey_of json) c))"
  using assms
  by (auto simp: chat_POST_def bodySchema_parse_def Let_def split_def
        split: sum.splits option.splits if_splits)

lemma withResponseCache_no_set:
  assumes "\<not> ok (r_status response)"
  shows "snd (withResponseCache t_get t_set t_ev key ttl_arg response c)
           = snd (MemoryCache_get t_get key c)"
  using assms by (simp add: withResponseCache_def split_def Let_def split: option.splits)

lemma withResponseCache_stores:
  assumes "snd (withResponseCache t_get t_set t_ev key ttl_arg response c)
             \<noteq> snd (MemoryCache_get t_get key c)"
  shows "ok (r_status response) \<and> fst (MemoryCache_get t_get key c) = None"
  using assms
  by (auto simp add: withResponseCache_def split_def Let_def split: option.splits if_splits)

lemma cacheKey_of_AaA:
  "cacheKey_of \<lparr>question = [65, 97, 65], topK = None, enableLLMRerank = None,
      enableRerank = None, sentenceWindowSize = None\<rparr> = ''query:1ekh:5:0:0:3''"
  by (simp add: cacheKey_of_def generateQueryCacheKey_def generateCacheKey_def simpleHash_def
        hash32_def hash_step_def toString_radix.simps digit_char_def digit_chars_def num_or_def
        flag_text_def)

text \<open>
  C8, as the code has it. When the backend call fails (a response that is not ok, or no
  response at all), the chat handler does not call \<open>responseCache.set\<close>: the cache is the
  one it was given, or the one that the lookup \<open>responseCache.get\<close> left, and the result is
  an error unless the lookup found a value. A lookup that finds nothing leaves the entry
  map as it was, except that it deletes the entry under the looked-up key when that entry
  is present and expired. Whenever the chat handler changes the cache beyond its lookup, the
  backend response was ok and the value stored is the one built from it. The same holds of
  \<open>withResponseCache\<close>: a response that is not ok is not stored, and a cache changed
  beyond the lookup means that the response was ok.
\<close>

theorem responseCache_no_error_results:
  "((case backend of None \<Rightarrow> True | Some resp \<Rightarrow> \<not> ok (status resp)) \<longrightarrow>
      (snd (snd (chat_POST t_rl t_get t_set t_ev hdrs json backend (bs, c))) = c
         \<and> fst (chat_POST t_rl t_get t_set t_ev hdrs json backend (bs, c))
              \<in> {Inl RateLimitError, Inl ZodError})
      \<or> (snd (snd (chat_POST t_rl t_get t_set t_ev hdrs json backend (bs, c)))
            = snd (MemoryCache_get t_get (cacheKey_of json) c)
         \<and> fst (chat_POST t_rl t_get t_set t_ev hdrs json backend (bs, c))
            = (case fst (MemoryCache_get t_get (cacheKey_of json) c) of
                 Some v \<Rightarrow> Inr v
               | None \<Rightarrow> Inl (case backend of None \<Rightarrow> FetchError
                             | Some resp \<Rightarrow> ExternalServiceError (status resp)))))
   \<and> (fst (MemoryCache_get t k c) = None \<longrightarrow>
        cache (snd (MemoryCache_get t k c)) = map_delete (cache c) k
        \<and> (\<forall>e. map_of (cache c) k = Some e \<longrightarrow> ttl e < t - timestamp e)
        \<and> (\<forall>k'. k' \<noteq> k \<longrightarrow> map_of (cache (snd (MemoryCache_get t k c))) k' = map_of (cache c) k'))
   \<and> (snd (snd (chat_POST t_rl t_get t_set t_ev hdrs json backend (bs, c))) \<noteq> c
        \<and> snd (snd (chat_POST t_rl t_get t_set t_ev hdrs json backend (bs, c)))
             \<noteq> snd (MemoryCache_get t_get (cacheKey_of json) c) \<longrightarrow>
        (\<exists>resp. backend = Some resp \<and> ok (status resp)
           \<and> snd (snd (chat_POST t_rl t_get t_set t_ev hdrs json backend (bs, c)))
               = MemoryCache_set t_set t_ev (cacheKey_of json)
                   (QueryResult (answer resp) (case sources resp of None \<Rightarrow> [] | Some xs \<Rightarrow> xs))
                   (Some 300000) (snd (MemoryCache_get t_get (cacheKey_of json) c))))
   \<and> (\<not> ok (r_status response) \<longrightarrow>
        snd (withResponseCache t_get t_set t_ev key ttl_arg response c)
          = snd (MemoryCache_get t_get key c))
   \<and> (snd (withResponseCache t_get t_set t_ev key ttl_arg response c)
          \<noteq> snd (MemoryCache_get t_get key c) \<longrightarrow> ok (r_status response))"
proof (intro conjI impI allI)
  assume "case backend of None \<Rightarrow> True | Some resp \<Rightarrow> \<not> ok (status resp)"
  then show "(snd (snd (chat_POST t_rl t_get t_set t_ev hdrs json backend (bs, c))) = c
         \<and> fst (chat_POST t_rl t_get t_set t_ev hdrs json backend (bs, c))
              \<in> {Inl RateLimitError, Inl ZodError})
      \<or> (snd (snd (chat_POST t_rl t_get t_set t_ev hdrs json backend (bs, c)))
            = snd (MemoryCache_get t_get (cacheKey_of json) c)
         \<and> fst (chat_POST t_rl t_get t_set t_ev hdrs json backend (bs, c))
            = (case fst (MemoryCache_get t_get (cacheKey_of json) c) of
                 Some v \<Rightarrow> Inr v
               | None \<Rightarrow> Inl (case backend of None \<Rightarrow> FetchError
                             | Some resp \<Rightarrow> ExternalServiceError (status resp))))"
    by (rule chat_POST_no_set)
next
  assume miss: "fst (MemoryCache_get t k c) = None"
  then show del: "cache (snd (MemoryCache_get t k c)) = map_delete (cache c) k"
    by (rule get_miss_cache(1))
  show "ttl e < t - timestamp e" if "map_of (cache c) k = Some e" for e
    using miss that by (rule get_miss_cache(2))
  show "map_of (cache (snd (MemoryCache_get t k c))) k' = map_of (cache c) k'" if "k' \<noteq> k" for k'
    using that by (simp add: del map_of_map_delete)
next
  assume "snd (snd (chat_POST t_rl t_get t_set t_ev hdrs json backend (bs, c))) \<noteq> c
        \<and> snd (snd (chat_POST t_rl t_get t_set t_ev hdrs json backend (bs, c)))
             \<noteq> snd (MemoryCache_get t_get (cacheKey_of json) c)"
  then show "\<exists>resp. backend = Some resp \<and> ok (status resp)
           \<and> snd (snd (chat_POST t_rl t_get t_set t_ev hdrs json backend (bs, c)))
               = MemoryCache_set t_set t_ev (cacheKey_of json)
                   (QueryResult (answer resp) (case sources resp of None \<Rightarrow> [] | Some xs \<Rightarrow> xs))
                   (Some 300000) (snd (MemoryCache_get t_get (cacheKey_of json) c))"
    using chat_POST_stores [of t_rl t_get t_set t_ev hdrs json backend bs c] by blast
next
  assume "\<not> ok (r_status response)"
  then show "snd (withResponseCache t_get t_set t_ev key ttl_arg response c)
          = snd (MemoryCache_get t_get key c)"
    by (rule withResponseCache_no_set)
next
  assume "snd (withResponseCache t_get t_set t_ev key ttl_arg response c)
          \<noteq> snd (MemoryCache_get t_get key c)"
  then show "ok (r_status response)"
    using withResponseCache_stores by blast
qed


theorem responseCache_no_error_results_witness:
  "\<not> ok 503
   \<and> fst (chat_POST 0 0 0 0 Map.empty
        \<lparr>question = [65, 97, 65], topK = None, enableLLMRerank = None,
           enableRerank = None, sentenceWindowSize = None\<rparr>
        (Some \<lparr>status = 503, answer = [], sources = None\<rparr>)
        (Map.empty, new_MemoryCache 500 300000)) = Inl (ExternalServiceError 503)
   \<and> cache (snd (snd (chat_POST 0 0 0 0 Map.empty
        \<lparr>question = [65, 97, 65], topK = None, enableLLMRerank = None,
           enableRerank = None, sentenceWindowSize = None\<rparr>
        (Some \<lparr>status = 503, answer = [], sources = None\<rparr>)
        (Map.empty, new_MemoryCache 500 300000)))) = []
   \<and> cache (snd (withResponseCache 0 0 0 ''page'' None
        \<lparr>r_status = 503, r_statusText = ''Service Unavailable'', r_headers = [], r_body = []\<rparr>
        (new_MemoryCache 500 300000))) = []"
  using responseCache_no_error_results
    [where backend = "Some \<lparr>status = 503, answer = [], sources = None\<rparr>"
       and t_rl = 0 and t_get = 0 and t_set = 0 and t_ev = 0 and hdrs = Map.empty
       and json = "\<lparr>question = [65, 97, 65], topK = None, enableLLMRerank = None,
           enableRerank = None, sentenceWindowSize = None\<rparr>"
       and bs = Map.empty and c = "new_MemoryCache 500 300000" and t = 0 and k = "''page''"
       and key = "''page''" and ttl_arg = None
       and response = "\<lparr>r_status = 503, r_statusText = ''Service Unavailable'', r_headers = [],
                          r_body = []\<rparr>"]
  by (simp add: chat_POST_def cacheKey_of_AaA rateLimit_def getBucket_def ipFromHeaders_def
        bucket_key_def bodySchema_parse_def in_range_opt_def Let_def split_def
        MemoryCache_get_def new_MemoryCache_def ok_def withResponseCache_def)

text \<open>
  C8 as stated has a failed request leave the cache contents exactly as they were. A first
  request at time 0 is answered by the backend and cached for 300000 ms. The same question
  at time 400000, with the backend answering 500, finds the entry expired: the lookup
  deletes it, the handler returns the error, and the cache that held one entry is empty.
\<close>

theorem failed_request_removes_expired_entry:
  "cache (snd (snd (chat_POST 0 0 0 0 Map.empty
        \<lparr>question = [65, 97, 65], topK = None, enableLLMRerank = None,
           enableRerank = None, sentenceWindowSize = None\<rparr>
        (Some \<lparr>status = 200, answer = ''42'', sources = None\<rparr>)
        (Map.empty, new_MemoryCache 500 300000))))
     = [(''query:1ekh:5:0:0:3'',
         \<lparr>data = QueryResult ''42'' [], timestamp = 0, ttl = 300000, hits = 0\<rparr>)]
   \<and> fst (chat_POST 400000 400000 400000 400000 Map.empty
        \<lparr>question = [65, 97, 65], topK = None, enableLLMRerank = None,
           enableRerank = None, sentenceWindowSize = None\<rparr>
        (Some \<lparr>status = 500, answer = [], sources = None\<rparr>)
        (snd (chat_POST 0 0 0 0 Map.empty
        \<lparr>question = [65, 97, 65], topK = None, enableLLMRerank = None,
           enableRerank = None, sentenceWindowSize = None\<rparr>
        (Some \<lparr>status = 200, answer = ''42'', sources = None\<rparr>)
        (Map.empty, new_MemoryCache 500 300000)))) = Inl (ExternalServiceError 500)
   \<and> cache (snd (snd (chat_POST 400000 400000 400000 400000 Map.empty
        \<lparr>question = [65, 97, 65], topK = None, enableLLMRerank = None,
           enableRerank = None, sentenceWindowSize = None\<rparr>
        (Some \<lparr>status = 500, answer = [], sources = None\<rparr>)
        (snd (chat_POST 0 0 0 0 Map.empty
        \<lparr>question = [65, 97, 65], topK = None, enableLLMRerank = None,
           enableRerank = None, sentenceWindowSize = None\<rparr>
        (Some \<lparr>status = 200, answer = ''42'', sources = None\<rparr>)
        (Map.empty, new_MemoryCache 500 300000)))))) = []"
  by (simp add: chat_POST_def cacheKey_of_AaA rateLimit_def getBucket_def ipFromHeaders_def
        bucket_key_def bodySchema_parse_def in_range_opt_def Let_def split_def
        MemoryCache_get_def new_MemoryCache_def ok_def MemoryCache_set_def map_has_def
        map_delete_def)

end
